theory Spec2Isabelle
  imports Main
begin

section \<open>Hardware state and platform primitives\<close>

text \<open>
  The firmware keeps two globals (\<open>sequence_active\<close>, \<open>step\<close>) and talks to the
  platform through \<open>gpio_put\<close>, \<open>gpio_get\<close>, \<open>sleep_ms\<close> and \<open>add_alarm_in_ms\<close>.
  The machine state records the globals together with what those calls touch:
  the level driven on every output pin, the log of all \<open>gpio_put\<close> calls, the delays of
  the one-shot alarms that are armed and have not fired, the time the main context has
  slept, and the number of \<open>gpio_get\<close> calls made so far.

  A level is a \<open>bool\<close>: \<open>True\<close> is logic 1, \<open>False\<close> is logic 0. The button has a
  pull-up, so a sample \<open>False\<close> is "pressed" and \<open>True\<close> is "released".
  The \<open>printf\<close> calls only produce diagnostic text and are left out.
\<close>

definition LED_VERMELHO :: nat where "LED_VERMELHO = 13"
definition LED_AZUL :: nat where "LED_AZUL = 12"
definition LED_VERDE :: nat where "LED_VERDE = 11"
definition BOTAO :: nat where "BOTAO = 5"

record machine =
  sequence_active :: bool
  step :: int
  gpio_out :: "nat \<Rightarrow> bool"
  gpio_log :: "(nat \<times> bool) list"
  alarms :: "nat list"
  clock_ms :: nat
  reads :: nat

text \<open>
  The input is the sequence of levels returned by successive \<open>gpio_get\<close> calls:
  the \<open>k\<close>-th call (counting from 0) returns \<open>inp k\<close>. The program only ever reads
  \<open>BOTAO\<close>.
\<close>

type_synonym input = "nat \<Rightarrow> bool"

definition gpio_put :: "nat \<Rightarrow> bool \<Rightarrow> machine \<Rightarrow> machine" where
  "gpio_put pin v s = s\<lparr>gpio_out := (gpio_out s)(pin := v), gpio_log := gpio_log s @ [(pin, v)]\<rparr>"

definition gpio_get :: "input \<Rightarrow> nat \<Rightarrow> machine \<Rightarrow> bool \<times> machine" where
  "gpio_get inp pin s = (inp (reads s), s\<lparr>reads := Suc (reads s)\<rparr>)"

definition sleep_ms :: "nat \<Rightarrow> machine \<Rightarrow> machine" where
  "sleep_ms d s = s\<lparr>clock_ms := clock_ms s + d\<rparr>"

definition add_alarm_in_ms :: "nat \<Rightarrow> machine \<Rightarrow> machine" where
  "add_alarm_in_ms d s = s\<lparr>alarms := alarms s @ [d]\<rparr>"

section \<open>The debounce function\<close>

text \<open>
  The loop \<open>while (gpio_get(BOTAO) == 0) sleep_ms(10);\<close> runs for as long as the samples
  read 0, so it is a partial function: \<open>None\<close> is "never returns".
\<close>

partial_function (option) wait_release :: "input \<Rightarrow> machine \<Rightarrow> machine option" where
  "wait_release inp s =
     (case gpio_get inp BOTAO s of
        (v, s1) \<Rightarrow> if \<not> v then wait_release inp (sleep_ms 10 s1) else Some s1)"

declare wait_release.simps [code]

definition botao_pressionado_debounce :: "input \<Rightarrow> machine \<Rightarrow> (bool \<times> machine) option" where
  "botao_pressionado_debounce inp s =
     (case gpio_get inp BOTAO s of
        (v1, s1) \<Rightarrow>
          if v1 then Some (False, s1)
          else (case gpio_get inp BOTAO (sleep_ms 50 s1) of
                  (v2, s2) \<Rightarrow>
                    if \<not> v2 then
                      (case wait_release inp s2 of
                         None \<Rightarrow> None
                       | Some s3 \<Rightarrow> Some (True, s3))
                    else Some (False, s2)))"

section \<open>The alarm callback\<close>

text \<open>
  \<open>alarm_callback\<close> switches on \<open>step\<close>; the switch has the cases 1, 2 and 3 and no
  default. The function always returns 0 (\<open>return false\<close>), which tells the platform
  not to repeat the alarm.
\<close>

definition alarm_callback :: "machine \<Rightarrow> int \<times> machine" where
  "alarm_callback s =
     (if step s = 1 then
        (0, add_alarm_in_ms 3000
              ((gpio_put LED_VERDE False
                 (gpio_put LED_AZUL True
                   (gpio_put LED_VERMELHO True s)))\<lparr>step := 2\<rparr>))
      else if step s = 2 then
        (0, add_alarm_in_ms 3000
              ((gpio_put LED_VERDE False
                 (gpio_put LED_AZUL False
                   (gpio_put LED_VERMELHO True s)))\<lparr>step := 3\<rparr>))
      else if step s = 3 then
        (0, (gpio_put LED_VERDE False
              (gpio_put LED_AZUL False
                (gpio_put LED_VERMELHO False s)))\<lparr>step := 0, sequence_active := False\<rparr>)
      else (0, s))"

section \<open>The main program\<close>

text \<open>
  \<open>power_on\<close> is the state when \<open>main\<close> is entered: the globals hold their
  initialisers and nothing has happened yet. \<open>main_init\<close> is the part of \<open>main\<close> before
  the loop that matters here: the three LEDs are driven low.
\<close>

definition power_on :: machine where
  "power_on = \<lparr>sequence_active = False, step = 0, gpio_out = (\<lambda>_. False), gpio_log = [],
               alarms = [], clock_ms = 0, reads = 0\<rparr>"

definition main_init :: "machine \<Rightarrow> machine" where
  "main_init s = gpio_put LED_VERDE False (gpio_put LED_AZUL False (gpio_put LED_VERMELHO False s))"

text \<open>
  One pass through the body of \<open>while (true)\<close>. The condition
  \<open>!sequence_active && botao_pressionado_debounce()\<close> short-circuits: the debounce
  function is called only when \<open>sequence_active\<close> is false.
\<close>

definition main_iter :: "input \<Rightarrow> machine \<Rightarrow> machine option" where
  "main_iter inp s =
     (if \<not> sequence_active s then
        (case botao_pressionado_debounce inp s of
           None \<Rightarrow> None
         | Some (clicked, s1) \<Rightarrow>
             if clicked then
               Some (sleep_ms 10
                 (add_alarm_in_ms 3000
                   (gpio_put LED_VERDE True
                     (gpio_put LED_AZUL True
                       (gpio_put LED_VERMELHO True
                         (s1\<lparr>sequence_active := True, step := 1\<rparr>))))))
             else Some (sleep_ms 10 s1))
      else Some (sleep_ms 10 s))"

text \<open>
  The platform delivers an armed one-shot alarm by calling \<open>alarm_callback\<close>; the alarm
  that fired is no longer pending afterwards (the callback's return value is always 0).
  \<open>fire i\<close> delivers the \<open>i\<close>-th pending alarm.
\<close>

definition fire :: "nat \<Rightarrow> machine \<Rightarrow> machine" where
  "fire i s = snd (alarm_callback (s\<lparr>alarms := take i (alarms s) @ drop (Suc i) (alarms s)\<rparr>))"

text \<open>
  The states the program can be in between transitions, for a given input: the state
  after initialisation, closed under a pass of the main loop that returns and under the
  delivery of a pending alarm. Each pass and each delivery is one step. The callback
  runs in interrupt context, so the main loop never runs in the middle of it. In the
  states reached this way no alarm is pending while \<open>sequence_active\<close> is false
  (\<open>reachable_inv\<close> below), so no callback can run inside a pass that calls the debounce
  function before that pass arms its alarm, which is its last statement before the final
  \<open>sleep_ms\<close>; and a pass that starts with \<open>sequence_active\<close> true only reads that flag.
\<close>

inductive reachable :: "input \<Rightarrow> machine \<Rightarrow> bool" for inp :: input where
  reach_init: "reachable inp (main_init power_on)"
| reach_main: "reachable inp s \<Longrightarrow> main_iter inp s = Some s' \<Longrightarrow> reachable inp s'"
| reach_alarm: "reachable inp s \<Longrightarrow> i < length (alarms s) \<Longrightarrow> reachable inp (fire i s)"

definition leds :: "machine \<Rightarrow> bool list" where
  "leds s = [gpio_out s LED_VERMELHO, gpio_out s LED_AZUL, gpio_out s LED_VERDE]"

text \<open>
  The sequencer is either running, with \<open>step\<close> in 1..3 and one 3000 ms alarm pending,
  or stopped, with \<open>step\<close> 0 and no alarm pending.
\<close>

definition sequencer_inv :: "machine \<Rightarrow> bool" where
  "sequencer_inv s =
     (if sequence_active s then (step s = 1 \<or> step s = 2 \<or> step s = 3) \<and> alarms s = [3000]
      else step s = 0 \<and> alarms s = [])"

section \<open>A test scenario\<close>

text \<open>
  The button is held for 60 ms and then released: the reads at 0 ms, at 50 ms, and the
  first read of the wait loop (also at 50 ms) return 0; the read at 60 ms returns 1 and
  so does every later one. \<open>started\<close> is the state after the first pass of the main
  loop on that input.
\<close>

definition press_60ms :: input where
  "press_60ms k = (3 \<le> k)"

definition started :: machine where
  "started = the (main_iter press_60ms (main_init power_on))"

text \<open>
  A second scenario: the same press, and a second one right after it. The samples are
  0, 0, 0, 1 for the first press and 0, 0, 1, 1, ... from the fifth read on.
\<close>

definition press_twice :: input where
  "press_twice k = (k = 3 \<or> 6 \<le> k)"

text \<open>
  Three more inputs: a blip that is gone at the second read, a button that is never
  pressed, and a button that is never released.
\<close>

definition bounce :: input where
  "bounce k = (k \<noteq> 0)"

definition at_rest :: input where
  "at_rest k = True"

definition held_forever :: input where
  "held_forever k = False"

section \<open>Facts about the wait loop and the debounce function\<close>

lemma wait_release_returns:
  "inp (reads s + k) \<Longrightarrow> \<forall>j<k. \<not> inp (reads s + j) \<Longrightarrow>
   wait_release inp s = Some (s\<lparr>clock_ms := clock_ms s + 10 * k, reads := reads s + Suc k\<rparr>)"
proof (induction k arbitrary: s)
  case 0
  then show ?case
    by (subst wait_release.simps) (simp add: gpio_get_def)
next
  case (Suc k)
  let ?s1 = "sleep_ms 10 (s\<lparr>reads := Suc (reads s)\<rparr>)"
  from Suc.prems have now: "\<not> inp (reads s)"
    by (metis add.right_neutral zero_less_Suc)
  have later: "inp (reads ?s1 + k)"
    using Suc.prems(1) by (simp add: sleep_ms_def)
  have before: "\<forall>j<k. \<not> inp (reads ?s1 + j)"
  proof (intro allI impI)
    fix j assume "j < k"
    then have "Suc j < Suc k" by simp
    with Suc.prems(2) have "\<not> inp (reads s + Suc j)" by blast
    then show "\<not> inp (reads ?s1 + j)" by (simp add: sleep_ms_def)
  qed
  have "wait_release inp s = wait_release inp ?s1"
    using now by (subst wait_release.simps) (simp add: gpio_get_def)
  also have "\<dots> = Some (?s1\<lparr>clock_ms := clock_ms ?s1 + 10 * k, reads := reads ?s1 + Suc k\<rparr>)"
    by (rule Suc.IH [OF later before])
  finally show ?case
    by (simp add: sleep_ms_def)
qed

lemma wait_release_sees_release:
  assumes ret: "wait_release inp s = Some s'"
  shows "\<exists>k. inp (reads s + k)"
proof (rule wait_release.raw_induct [OF _ ret])
  fix w inp s s'
  assume IH: "\<And>inp s s'. w inp s = Some s' \<Longrightarrow> \<exists>k. inp (reads s + k)"
    and body: "(case gpio_get inp BOTAO s of
                  (v, s1) \<Rightarrow> if \<not> v then w inp (sleep_ms 10 s1) else Some s1) = Some s'"
  show "\<exists>k. inp (reads s + k)"
  proof (cases "inp (reads s)")
    case True
    then have "inp (reads s + 0)" by simp
    then show ?thesis by blast
  next
    case False
    with body have "w inp (sleep_ms 10 (s\<lparr>reads := Suc (reads s)\<rparr>)) = Some s'"
      by (simp add: gpio_get_def)
    from IH [OF this] obtain k where "inp (Suc (reads s) + k)"
      by (auto simp: sleep_ms_def)
    then have "inp (reads s + Suc k)" by simp
    then show ?thesis by blast
  qed
qed

lemma first_release:
  assumes "\<exists>k. inp (r + k)"
  obtains k where "inp (r + k)" and "\<forall>j<k. \<not> inp (r + (j::nat))"
proof -
  define k where "k = (LEAST k. inp (r + k))"
  have "inp (r + k)"
    unfolding k_def using assms by (rule LeastI_ex)
  moreover have "\<forall>j<k. \<not> inp (r + j)"
    unfolding k_def using not_less_Least by blast
  ultimately show thesis by (rule that)
qed

lemma debounce_released:
  "inp (reads s) \<Longrightarrow>
   botao_pressionado_debounce inp s = Some (False, s\<lparr>reads := Suc (reads s)\<rparr>)"
  by (simp add: botao_pressionado_debounce_def gpio_get_def)

lemma debounce_noise:
  "\<not> inp (reads s) \<Longrightarrow> inp (Suc (reads s)) \<Longrightarrow>
   botao_pressionado_debounce inp s =
     Some (False, s\<lparr>clock_ms := clock_ms s + 50, reads := reads s + 2\<rparr>)"
  by (simp add: botao_pressionado_debounce_def gpio_get_def sleep_ms_def)

lemma debounce_confirmed:
  "\<not> inp (reads s) \<Longrightarrow> \<not> inp (Suc (reads s)) \<Longrightarrow>
   botao_pressionado_debounce inp s =
     (case wait_release inp (s\<lparr>clock_ms := clock_ms s + 50, reads := reads s + 2\<rparr>) of
        None \<Rightarrow> None | Some s3 \<Rightarrow> Some (True, s3))"
  by (simp add: botao_pressionado_debounce_def gpio_get_def sleep_ms_def)

lemma debounce_click:
  assumes "\<not> inp (reads s)" and "\<not> inp (Suc (reads s))"
    and rel: "inp (reads s + 2 + k)" and held: "\<forall>j<k. \<not> inp (reads s + 2 + j)"
  shows "botao_pressionado_debounce inp s =
     Some (True, s\<lparr>clock_ms := clock_ms s + 50 + 10 * k, reads := reads s + 3 + k\<rparr>)"
proof -
  let ?s2 = "s\<lparr>clock_ms := clock_ms s + 50, reads := reads s + 2\<rparr>"
  have "wait_release inp ?s2 =
      Some (?s2\<lparr>clock_ms := clock_ms ?s2 + 10 * k, reads := reads ?s2 + Suc k\<rparr>)"
    using rel held by (intro wait_release_returns) simp_all
  then show ?thesis
    using assms(1,2) by (simp add: debounce_confirmed)
qed

lemma debounce_stuck:
  assumes "\<not> inp (reads s)" and "\<not> inp (Suc (reads s))"
    and held: "\<forall>k. \<not> inp (reads s + 2 + k)"
  shows "botao_pressionado_debounce inp s = None"
proof -
  let ?s2 = "s\<lparr>clock_ms := clock_ms s + 50, reads := reads s + 2\<rparr>"
  have "wait_release inp ?s2 = None"
  proof (rule ccontr)
    assume "wait_release inp ?s2 \<noteq> None"
    then obtain s3 where "wait_release inp ?s2 = Some s3" by blast
    then have "\<exists>k. inp (reads ?s2 + k)" by (rule wait_release_sees_release)
    with held show False by simp
  qed
  then show ?thesis
    using assms(1,2) by (simp add: debounce_confirmed)
qed

lemma debounce_frame:
  assumes "botao_pressionado_debounce inp s = Some (b, s')"
  shows "\<exists>r c. s' = s\<lparr>clock_ms := c, reads := r\<rparr> \<and> reads s < r"
proof (cases "inp (reads s)")
  case True
  with assms have "s' = s\<lparr>clock_ms := clock_ms s, reads := Suc (reads s)\<rparr>"
    by (auto simp: debounce_released)
  moreover have "reads s < Suc (reads s)" by simp
  ultimately show ?thesis by blast
next
  case pressed: False
  show ?thesis
  proof (cases "inp (Suc (reads s))")
    case True
    with pressed assms have "s' = s\<lparr>clock_ms := clock_ms s + 50, reads := reads s + 2\<rparr>"
      by (auto simp: debounce_noise)
    moreover have "reads s < reads s + 2" by simp
    ultimately show ?thesis by blast
  next
    case False
    let ?s2 = "s\<lparr>clock_ms := clock_ms s + 50, reads := reads s + 2\<rparr>"
    from pressed False assms have ret: "wait_release inp ?s2 = Some s'"
      by (simp add: debounce_confirmed split: option.splits)
    then have "\<exists>k. inp (reads ?s2 + k)" by (rule wait_release_sees_release)
    then obtain k where "inp (reads ?s2 + k)" and "\<forall>j<k. \<not> inp (reads ?s2 + j)"
      by (rule first_release)
    then have "wait_release inp ?s2 =
        Some (?s2\<lparr>clock_ms := clock_ms ?s2 + 10 * k, reads := reads ?s2 + Suc k\<rparr>)"
      by (rule wait_release_returns)
    with ret have "s' = s\<lparr>clock_ms := clock_ms s + 50 + 10 * k, reads := reads s + 3 + k\<rparr>"
      by auto
    moreover have "reads s < reads s + 3 + k" by simp
    ultimately show ?thesis by blast
  qed
qed

lemma main_iter_active:
  "sequence_active s \<Longrightarrow> main_iter inp s = Some (s\<lparr>clock_ms := clock_ms s + 10\<rparr>)"
  by (simp add: main_iter_def sleep_ms_def)

lemma main_iter_idle_cases:
  assumes idle: "\<not> sequence_active s" and ret: "main_iter inp s = Some s'"
  obtains (click) sd where "botao_pressionado_debounce inp s = Some (True, sd)"
      and "s' = sleep_ms 10 (add_alarm_in_ms 3000
                  (gpio_put LED_VERDE True (gpio_put LED_AZUL True (gpio_put LED_VERMELHO True
                     (sd\<lparr>sequence_active := True, step := 1\<rparr>)))))"
    | (quiet) sd where "botao_pressionado_debounce inp s = Some (False, sd)"
      and "s' = sleep_ms 10 sd"
  using assms by (auto simp: main_iter_def split: option.splits if_splits)

lemma fire_only_pending:
  "alarms s = [d] \<Longrightarrow> i < length (alarms s) \<Longrightarrow>
   fire i s = snd (alarm_callback (s\<lparr>alarms := []\<rparr>))"
  by (simp add: fire_def)

lemma reachable_inv: "reachable inp s \<Longrightarrow> sequencer_inv s"
proof (induction rule: reachable.induct)
  case reach_init
  show ?case
    by (simp add: sequencer_inv_def main_init_def power_on_def gpio_put_def)
next
  case (reach_main s s')
  show ?case
  proof (cases "sequence_active s")
    case True
    with reach_main show ?thesis
      by (auto simp: main_iter_active sequencer_inv_def)
  next
    case False
    from False reach_main(2) show ?thesis
    proof (cases rule: main_iter_idle_cases)
      case (click sd)
      from debounce_frame [OF click(1)] obtain r c
        where "sd = s\<lparr>clock_ms := c, reads := r\<rparr>" by blast
      with click(2) False reach_main(3) show ?thesis
        by (simp add: sequencer_inv_def sleep_ms_def add_alarm_in_ms_def gpio_put_def)
    next
      case (quiet sd)
      from debounce_frame [OF quiet(1)] obtain r c
        where "sd = s\<lparr>clock_ms := c, reads := r\<rparr>" by blast
      with quiet(2) False reach_main(3) show ?thesis
        by (simp add: sequencer_inv_def sleep_ms_def)
    qed
  qed
next
  case (reach_alarm s i)
  from reach_alarm(2,3) have act: "sequence_active s" and al: "alarms s = [3000]"
    and st: "step s = 1 \<or> step s = 2 \<or> step s = 3"
    by (auto simp: sequencer_inv_def split: if_splits)
  from al reach_alarm(2) have "fire i s = snd (alarm_callback (s\<lparr>alarms := []\<rparr>))"
    by (rule fire_only_pending)
  with act st show ?case
    by (auto simp: sequencer_inv_def alarm_callback_def add_alarm_in_ms_def gpio_put_def)
qed

section \<open>The test scenario, evaluated\<close>

lemma debounce_press_60ms:
  "botao_pressionado_debounce press_60ms (main_init power_on) =
     Some (True, (main_init power_on)\<lparr>clock_ms := 60, reads := 4\<rparr>)"
  using debounce_click [of press_60ms "main_init power_on" 1]
  by (simp add: press_60ms_def main_init_def power_on_def gpio_put_def)

lemma main_iter_press_60ms:
  "main_iter press_60ms (main_init power_on) =
     Some (sleep_ms 10 (add_alarm_in_ms 3000
       (gpio_put LED_VERDE True (gpio_put LED_AZUL True (gpio_put LED_VERMELHO True
         ((main_init power_on)\<lparr>clock_ms := 60, reads := 4, sequence_active := True, step := 1\<rparr>))))))"
  by (simp add: main_iter_def debounce_press_60ms)
     (simp add: main_init_def power_on_def gpio_put_def)

lemma started_eq:
  "started = sleep_ms 10 (add_alarm_in_ms 3000
       (gpio_put LED_VERDE True (gpio_put LED_AZUL True (gpio_put LED_VERMELHO True
         ((main_init power_on)\<lparr>clock_ms := 60, reads := 4, sequence_active := True, step := 1\<rparr>)))))"
  by (simp add: started_def main_iter_press_60ms)

lemma started_fields:
  "sequence_active started" "step started = 1" "alarms started = [3000]"
  "clock_ms started = 70" "reads started = 4" "leds started = [True, True, True]"
  by (simp_all add: started_eq sleep_ms_def add_alarm_in_ms_def gpio_put_def main_init_def
        power_on_def leds_def LED_VERMELHO_def LED_AZUL_def LED_VERDE_def)

lemma reachable_started: "reachable press_60ms started"
proof -
  have "main_iter press_60ms (main_init power_on) = Some started"
    by (simp add: started_eq main_iter_press_60ms)
  with reach_init show ?thesis by (rule reach_main)
qed

lemma main_iter_press_twice:
  "main_iter press_twice (main_init power_on) = Some started"
proof -
  have "botao_pressionado_debounce press_twice (main_init power_on) =
     Some (True, (main_init power_on)\<lparr>clock_ms := 60, reads := 4\<rparr>)"
    using debounce_click [of press_twice "main_init power_on" 1]
    by (simp add: press_twice_def main_init_def power_on_def gpio_put_def)
  then show ?thesis
    by (simp add: main_iter_def started_eq)
       (simp add: main_init_def power_on_def gpio_put_def)
qed

lemma second_click_validated:
  "map_option fst (botao_pressionado_debounce press_twice started) = Some True"
  using debounce_click [of press_twice started 0]
  by (simp add: press_twice_def started_fields)

section \<open>Sequencer invariants\<close>

text \<open>
  C1. In every reachable state \<open>step\<close> is one of 0, 1, 2, 3, and \<open>step\<close> is 0
  exactly when \<open>sequence_active\<close> is false.
\<close>

theorem step_active_invariant:
  "reachable inp s \<Longrightarrow>
     (step s = 0 \<or> step s = 1 \<or> step s = 2 \<or> step s = 3) \<and>
     (step s = 0 \<longleftrightarrow> \<not> sequence_active s)"
proof -
  assume "reachable inp s"
  then have "sequencer_inv s" by (rule reachable_inv)
  then show ?thesis
    by (auto simp: sequencer_inv_def split: if_splits)
qed

text \<open>
  The invariant at the state after the first click of the test scenario, where the
  sequencer is running with \<open>step = 1\<close>.
\<close>

theorem step_active_invariant_witness:
  "reachable press_60ms started \<and>
   (step started = 0 \<or> step started = 1 \<or> step started = 2 \<or> step started = 3) \<and>
   (step started = 0 \<longleftrightarrow> \<not> sequence_active started) \<and>
   step started = 1 \<and> sequence_active started"
  using step_active_invariant [OF reachable_started] reachable_started
  by (simp add: started_fields)

section \<open>The sequence started by one click\<close>

lemmas hw_defs = sleep_ms_def add_alarm_in_ms_def gpio_put_def
lemmas pin_defs = LED_VERMELHO_def LED_AZUL_def LED_VERDE_def

text \<open>
  C2. From an idle state, a pass of the main loop in which the debounce function
  validates a click sets \<open>sequence_active\<close>, sets \<open>step\<close> to 1, turns the three
  LEDs on and arms one 3000 ms alarm. The three alarm deliveries that follow show
  [on, on, off] with \<open>step = 2\<close>, then [on, off, off] with \<open>step = 3\<close>, then
  [off, off, off] with \<open>step = 0\<close> and \<open>sequence_active\<close> false and no alarm pending.
  The output writes made on the way are exactly those four patterns, in that order.
\<close>

theorem click_runs_full_sequence:
  assumes idle: "\<not> sequence_active s" "step s = 0" "alarms s = []"
    and click: "botao_pressionado_debounce inp s = Some (True, sd)"
  shows "\<exists>s1. main_iter inp s = Some s1 \<and>
      sequence_active s1 \<and> step s1 = 1 \<and> alarms s1 = [3000] \<and>
      leds s1 = [True, True, True] \<and>
      sequence_active (fire 0 s1) \<and> step (fire 0 s1) = 2 \<and> alarms (fire 0 s1) = [3000] \<and>
      leds (fire 0 s1) = [True, True, False] \<and>
      sequence_active (fire 0 (fire 0 s1)) \<and> step (fire 0 (fire 0 s1)) = 3 \<and>
      alarms (fire 0 (fire 0 s1)) = [3000] \<and>
      leds (fire 0 (fire 0 s1)) = [True, False, False] \<and>
      \<not> sequence_active (fire 0 (fire 0 (fire 0 s1))) \<and> step (fire 0 (fire 0 (fire 0 s1))) = 0 \<and>
      alarms (fire 0 (fire 0 (fire 0 s1))) = [] \<and>
      leds (fire 0 (fire 0 (fire 0 s1))) = [False, False, False] \<and>
      gpio_log (fire 0 (fire 0 (fire 0 s1))) = gpio_log s @
        [(LED_VERMELHO, True), (LED_AZUL, True), (LED_VERDE, True),
         (LED_VERMELHO, True), (LED_AZUL, True), (LED_VERDE, False),
         (LED_VERMELHO, True), (LED_AZUL, False), (LED_VERDE, False),
         (LED_VERMELHO, False), (LED_AZUL, False), (LED_VERDE, False)]"
proof -
  from debounce_frame [OF click] obtain r c where sd: "sd = s\<lparr>clock_ms := c, reads := r\<rparr>"
    by blast
  define s1 where "s1 = sleep_ms 10 (add_alarm_in_ms 3000
      (gpio_put LED_VERDE True (gpio_put LED_AZUL True (gpio_put LED_VERMELHO True
         (sd\<lparr>sequence_active := True, step := 1\<rparr>)))))"
  define s2 where "s2 = fire 0 s1"
  define s3 where "s3 = fire 0 s2"
  define s4 where "s4 = fire 0 s3"
  have run: "main_iter inp s = Some s1"
    using idle(1) click by (simp add: main_iter_def s1_def)
  have f1: "sequence_active s1" "step s1 = 1" "alarms s1 = [3000]"
    "gpio_log s1 = gpio_log s @ [(LED_VERMELHO, True), (LED_AZUL, True), (LED_VERDE, True)]"
    using idle(3) by (simp_all add: s1_def sd hw_defs)
  have l1: "leds s1 = [True, True, True]"
    by (simp add: s1_def leds_def hw_defs pin_defs)
  have s2: "s2 = add_alarm_in_ms 3000
      ((gpio_put LED_VERDE False (gpio_put LED_AZUL True (gpio_put LED_VERMELHO True
         (s1\<lparr>alarms := []\<rparr>))))\<lparr>step := 2\<rparr>)"
    using f1 by (simp add: s2_def fire_def alarm_callback_def)
  have f2: "sequence_active s2" "step s2 = 2" "alarms s2 = [3000]"
    "gpio_log s2 = gpio_log s1 @ [(LED_VERMELHO, True), (LED_AZUL, True), (LED_VERDE, False)]"
    using f1 by (simp_all add: s2 hw_defs)
  have l2: "leds s2 = [True, True, False]"
    by (simp add: s2 leds_def hw_defs pin_defs)
  have s3: "s3 = add_alarm_in_ms 3000
      ((gpio_put LED_VERDE False (gpio_put LED_AZUL False (gpio_put LED_VERMELHO True
         (s2\<lparr>alarms := []\<rparr>))))\<lparr>step := 3\<rparr>)"
    using f2 by (simp add: s3_def fire_def alarm_callback_def)
  have f3: "sequence_active s3" "step s3 = 3" "alarms s3 = [3000]"
    "gpio_log s3 = gpio_log s2 @ [(LED_VERMELHO, True), (LED_AZUL, False), (LED_VERDE, False)]"
    using f2 by (simp_all add: s3 hw_defs)
  have l3: "leds s3 = [True, False, False]"
    by (simp add: s3 leds_def hw_defs pin_defs)
  have s4: "s4 = (gpio_put LED_VERDE False (gpio_put LED_AZUL False (gpio_put LED_VERMELHO False
         (s3\<lparr>alarms := []\<rparr>))))\<lparr>step := 0, sequence_active := False\<rparr>"
    using f3 by (simp add: s4_def fire_def alarm_callback_def)
  have f4: "\<not> sequence_active s4" "step s4 = 0" "alarms s4 = []"
    "gpio_log s4 = gpio_log s3 @ [(LED_VERMELHO, False), (LED_AZUL, False), (LED_VERDE, False)]"
    by (simp_all add: s4 hw_defs)
  have l4: "leds s4 = [False, False, False]"
    by (simp add: s4 leds_def hw_defs pin_defs)
  have log: "gpio_log s4 = gpio_log s @
        [(LED_VERMELHO, True), (LED_AZUL, True), (LED_VERDE, True),
         (LED_VERMELHO, True), (LED_AZUL, True), (LED_VERDE, False),
         (LED_VERMELHO, True), (LED_AZUL, False), (LED_VERDE, False),
         (LED_VERMELHO, False), (LED_AZUL, False), (LED_VERDE, False)]"
    by (simp add: f4(4) f3(4) f2(4) f1(4))
  show ?thesis
    unfolding s2_def [symmetric] s3_def [symmetric] s4_def [symmetric]
    using run f1(1-3) l1 f2(1-3) l2 f3(1-3) l3 f4(1-3) l4 log
    unfolding s2_def s3_def s4_def by blast
qed

text \<open>
  The test scenario: the button held for 60 ms after initialisation.
\<close>

theorem click_runs_full_sequence_witness:
  "\<not> sequence_active (main_init power_on) \<and> step (main_init power_on) = 0 \<and>
   alarms (main_init power_on) = [] \<and>
   map_option fst (botao_pressionado_debounce press_60ms (main_init power_on)) = Some True \<and>
   main_iter press_60ms (main_init power_on) = Some started \<and>
   map leds [started, fire 0 started, fire 0 (fire 0 started), fire 0 (fire 0 (fire 0 started))] =
     [[True, True, True], [True, True, False], [True, False, False], [False, False, False]] \<and>
   map step [started, fire 0 started, fire 0 (fire 0 started), fire 0 (fire 0 (fire 0 started))] =
     [1, 2, 3, 0] \<and>
   \<not> sequence_active (fire 0 (fire 0 (fire 0 started)))"
proof -
  have idle: "\<not> sequence_active (main_init power_on)" "step (main_init power_on) = 0"
    "alarms (main_init power_on) = []"
    by (simp_all add: main_init_def power_on_def gpio_put_def)
  have run: "main_iter press_60ms (main_init power_on) = Some started"
    by (simp add: started_eq main_iter_press_60ms)
  from click_runs_full_sequence [OF idle debounce_press_60ms] run idle
  show ?thesis
    by (simp add: debounce_press_60ms)
qed

section \<open>Clicks while a sequence is running\<close>

text \<open>
  C3. In a state with \<open>sequence_active\<close> true, a pass of the main loop returns and
  leaves \<open>sequence_active\<close>, \<open>step\<close>, the output levels, the log of output writes and
  the pending alarms as they were, whatever the button does; the state after the pass is
  the same for every input, so what follows is the same with or without a click.
\<close>

theorem click_while_active_ignored:
  assumes "sequence_active s"
  shows "\<exists>s'. main_iter inp s = Some s' \<and>
      sequence_active s' = sequence_active s \<and> step s' = step s \<and>
      gpio_out s' = gpio_out s \<and> gpio_log s' = gpio_log s \<and> alarms s' = alarms s \<and>
      (\<forall>inp'. main_iter inp' s = Some s')"
  using assms by (simp add: main_iter_active)

text \<open>
  In the second scenario the button is pressed again while the sequence started by the
  first press is running: the debounce function would validate that press, and the pass
  of the main loop ignores it.
\<close>

theorem click_while_active_ignored_witness:
  "main_iter press_twice (main_init power_on) = Some started \<and>
   sequence_active started \<and>
   map_option fst (botao_pressionado_debounce press_twice started) = Some True \<and>
   map_option (\<lambda>t. (sequence_active t, step t, leds t, gpio_log t, alarms t))
       (main_iter press_twice started) =
     Some (sequence_active started, step started, leds started, gpio_log started, alarms started) \<and>
   main_iter press_twice started = main_iter press_60ms started"
proof -
  have act: "sequence_active started" by (simp add: started_fields)
  from click_while_active_ignored [OF act, of press_twice]
  obtain s' where "main_iter press_twice started = Some s'"
    and "sequence_active s' = sequence_active started" and "step s' = step started"
    and "gpio_out s' = gpio_out started" and "gpio_log s' = gpio_log started"
    and "alarms s' = alarms started" and "\<forall>inp'. main_iter inp' started = Some s'"
    by blast
  then show ?thesis
    using act second_click_validated main_iter_press_twice by (simp add: leds_def)
qed

text \<open>
  C10. While \<open>sequence_active\<close> is true, a pass of the main loop makes no \<open>gpio_get\<close>
  call and its result does not depend on the input. Every call of the debounce function
  that returns has made at least one \<open>gpio_get\<close> call, so a pass that read the button
  started with \<open>sequence_active\<close> false.
\<close>

theorem active_loop_never_samples:
  "(sequence_active s \<longrightarrow>
      (\<exists>s'. main_iter inp s = Some s' \<and> reads s' = reads s) \<and>
      (\<forall>inp'. main_iter inp' s = main_iter inp s)) \<and>
   (\<forall>b sd. botao_pressionado_debounce inp s = Some (b, sd) \<longrightarrow> reads s < reads sd) \<and>
   (\<forall>s'. main_iter inp s = Some s' \<and> reads s' \<noteq> reads s \<longrightarrow> \<not> sequence_active s)"
proof (intro conjI impI allI)
  assume "sequence_active s"
  then show "\<exists>s'. main_iter inp s = Some s' \<and> reads s' = reads s"
    by (simp add: main_iter_active)
next
  fix inp' assume "sequence_active s"
  then show "main_iter inp' s = main_iter inp s"
    by (simp add: main_iter_active)
next
  fix b sd assume "botao_pressionado_debounce inp s = Some (b, sd)"
  from debounce_frame [OF this] show "reads s < reads sd" by auto
next
  fix s' assume "main_iter inp s = Some s' \<and> reads s' \<noteq> reads s"
  then show "\<not> sequence_active s"
    by (auto simp: main_iter_active)
qed

text \<open>
  The pass from \<open>started\<close> reads nothing; the pass that led to \<open>started\<close> read the
  button four times and began with \<open>sequence_active\<close> false.
\<close>

theorem active_loop_never_samples_witness:
  "sequence_active started \<and>
   map_option reads (main_iter press_twice started) = Some (reads started) \<and>
   main_iter press_60ms started = main_iter press_twice started \<and>
   main_iter press_60ms (main_init power_on) = Some started \<and>
   reads started \<noteq> reads (main_init power_on) \<and>
   \<not> sequence_active (main_init power_on)"
proof -
  have act: "sequence_active started" by (simp add: started_fields)
  have run: "main_iter press_60ms (main_init power_on) = Some started"
    by (simp add: started_eq main_iter_press_60ms)
  have rd: "reads started \<noteq> reads (main_init power_on)"
    by (simp add: started_fields main_init_def power_on_def gpio_put_def)
  from active_loop_never_samples [of started press_twice] act
  have "map_option reads (main_iter press_twice started) = Some (reads started)"
    and "main_iter press_60ms started = main_iter press_twice started"
    by auto
  moreover from active_loop_never_samples [of "main_init power_on" press_60ms] run rd
  have "\<not> sequence_active (main_init power_on)"
    by blast
  ultimately show ?thesis
    using act run rd by simp
qed

section \<open>Behaviour of the debounce function\<close>

text \<open>
  C5. For every input and every state, with \<open>reads s\<close> the index of the next sample:
  if the first sample reads released, the function returns false after that one read,
  without sleeping; if the first reads pressed and the second, taken 50 ms later, reads
  released, it returns false after those two reads; if both read pressed, it reads again
  at once and then every 10 ms, and returns true right after the first sample that reads
  released (after \<open>k\<close> sleeps of 10 ms when that is the \<open>k\<close>-th sample of the
  loop, counting from 0); if no later sample reads released it never returns.
\<close>

theorem debounce_behaviour:
  "(inp (reads s) \<longrightarrow>
      botao_pressionado_debounce inp s = Some (False, s\<lparr>reads := Suc (reads s)\<rparr>)) \<and>
   (\<not> inp (reads s) \<and> inp (Suc (reads s)) \<longrightarrow>
      botao_pressionado_debounce inp s =
        Some (False, s\<lparr>clock_ms := clock_ms s + 50, reads := reads s + 2\<rparr>)) \<and>
   (\<not> inp (reads s) \<and> \<not> inp (Suc (reads s)) \<and>
      inp (reads s + 2 + k) \<and> (\<forall>j<k. \<not> inp (reads s + 2 + j)) \<longrightarrow>
      botao_pressionado_debounce inp s =
        Some (True, s\<lparr>clock_ms := clock_ms s + 50 + 10 * k, reads := reads s + 3 + k\<rparr>)) \<and>
   (\<not> inp (reads s) \<and> \<not> inp (Suc (reads s)) \<and> (\<forall>k. \<not> inp (reads s + 2 + k)) \<longrightarrow>
      botao_pressionado_debounce inp s = None)"
  by (intro conjI impI)
     (simp_all add: debounce_released debounce_noise debounce_click debounce_stuck)

text \<open>
  One input for each of the four cases, from the state after initialisation: result,
  time slept and number of reads.
\<close>

theorem debounce_behaviour_witness:
  "map_option (\<lambda>(b, t). (b, clock_ms t, reads t))
      (botao_pressionado_debounce at_rest (main_init power_on)) = Some (False, 0, 1) \<and>
   map_option (\<lambda>(b, t). (b, clock_ms t, reads t))
      (botao_pressionado_debounce bounce (main_init power_on)) = Some (False, 50, 2) \<and>
   map_option (\<lambda>(b, t). (b, clock_ms t, reads t))
      (botao_pressionado_debounce press_60ms (main_init power_on)) = Some (True, 60, 4) \<and>
   botao_pressionado_debounce held_forever (main_init power_on) = None"
proof -
  let ?s = "main_init power_on"
  have z: "reads ?s = 0" "clock_ms ?s = 0"
    by (simp_all add: main_init_def power_on_def gpio_put_def)
  from debounce_behaviour [of at_rest ?s 0]
  have a: "botao_pressionado_debounce at_rest ?s = Some (False, ?s\<lparr>reads := Suc (reads ?s)\<rparr>)"
    by (simp add: at_rest_def)
  from debounce_behaviour [of bounce ?s 0]
  have b: "botao_pressionado_debounce bounce ?s =
      Some (False, ?s\<lparr>clock_ms := clock_ms ?s + 50, reads := reads ?s + 2\<rparr>)"
    by (simp add: bounce_def z)
  from debounce_behaviour [of press_60ms ?s 1]
  have c: "botao_pressionado_debounce press_60ms ?s =
      Some (True, ?s\<lparr>clock_ms := clock_ms ?s + 50 + 10 * 1, reads := reads ?s + 3 + 1\<rparr>)"
    by (simp add: press_60ms_def z)
  from debounce_behaviour [of held_forever ?s 0]
  have d: "botao_pressionado_debounce held_forever ?s = None"
    by (simp add: held_forever_def)
  show ?thesis
    by (simp add: a b c d z)
qed

text \<open>
  C7. A call of the debounce function that returns, with true or with false, leaves
  \<open>sequence_active\<close>, \<open>step\<close>, the level of every output pin (so the three LEDs),
  the log of output writes and the pending alarms as they were before the call.
\<close>

theorem debounce_changes_no_sequencer_state:
  assumes "botao_pressionado_debounce inp s = Some (b, s')"
  shows "sequence_active s' = sequence_active s \<and> step s' = step s \<and>
     gpio_out s' = gpio_out s \<and> leds s' = leds s \<and> gpio_log s' = gpio_log s \<and>
     alarms s' = alarms s"
proof -
  from debounce_frame [OF assms] obtain r c where "s' = s\<lparr>clock_ms := c, reads := r\<rparr>"
    by blast
  then show ?thesis by (simp add: leds_def)
qed

text \<open>
  A call that returns true (the 60 ms press) and one that returns false (the blip).
\<close>

theorem debounce_changes_no_sequencer_state_witness:
  "map_option (\<lambda>(b, t). (b, sequence_active t, step t, leds t, gpio_log t, alarms t))
      (botao_pressionado_debounce press_60ms (main_init power_on)) =
     Some (True, sequence_active (main_init power_on), step (main_init power_on),
           leds (main_init power_on), gpio_log (main_init power_on), alarms (main_init power_on)) \<and>
   map_option (\<lambda>(b, t). (b, sequence_active t, step t, leds t, gpio_log t, alarms t))
      (botao_pressionado_debounce bounce (main_init power_on)) =
     Some (False, sequence_active (main_init power_on), step (main_init power_on),
           leds (main_init power_on), gpio_log (main_init power_on), alarms (main_init power_on))"
proof -
  let ?s = "main_init power_on"
  have "reads ?s = 0"
    by (simp add: main_init_def power_on_def gpio_put_def)
  then have nz: "botao_pressionado_debounce bounce ?s =
      Some (False, ?s\<lparr>clock_ms := clock_ms ?s + 50, reads := reads ?s + 2\<rparr>)"
    by (intro debounce_noise) (simp_all add: bounce_def)
  from debounce_changes_no_sequencer_state [OF debounce_press_60ms]
    debounce_changes_no_sequencer_state [OF nz]
  show ?thesis
    by (simp add: debounce_press_60ms nz)
qed

text \<open>
  C9. When the first two samples read pressed, the debounce function returns if and
  only if some later sample reads released; whenever it returns it returns true; it
  returns right after the first released sample, having slept 50 ms plus 10 ms for each
  pressed sample the loop saw; and the time it blocks has no bound: for every \<open>n\<close>
  there is an input on which it returns true after more than \<open>n\<close> ms.
\<close>

theorem debounce_blocks_until_release:
  assumes p0: "\<not> inp (reads s)" and p1: "\<not> inp (Suc (reads s))"
  shows "((\<exists>res. botao_pressionado_debounce inp s = Some res) \<longleftrightarrow>
            (\<exists>k. inp (reads s + 2 + k))) \<and>
         (\<forall>res. botao_pressionado_debounce inp s = Some res \<longrightarrow> fst res) \<and>
         (\<forall>k. inp (reads s + 2 + k) \<and> (\<forall>j<k. \<not> inp (reads s + 2 + j)) \<longrightarrow>
            (\<exists>s'. botao_pressionado_debounce inp s = Some (True, s') \<and>
                  reads s' = reads s + 3 + k \<and> clock_ms s' = clock_ms s + 50 + 10 * k)) \<and>
         (\<forall>n. \<exists>inp' s'. \<not> inp' (reads s) \<and> \<not> inp' (Suc (reads s)) \<and>
            botao_pressionado_debounce inp' s = Some (True, s') \<and>
            clock_ms s + n \<le> clock_ms s')"
proof (intro conjI allI impI)
  let ?s2 = "s\<lparr>clock_ms := clock_ms s + 50, reads := reads s + 2\<rparr>"
  show "(\<exists>res. botao_pressionado_debounce inp s = Some res) \<longleftrightarrow> (\<exists>k. inp (reads s + 2 + k))"
  proof
    assume "\<exists>res. botao_pressionado_debounce inp s = Some res"
    then obtain s3 where "wait_release inp ?s2 = Some s3"
      using p0 p1 by (auto simp: debounce_confirmed split: option.splits)
    then have "\<exists>k. inp (reads ?s2 + k)" by (rule wait_release_sees_release)
    then show "\<exists>k. inp (reads s + 2 + k)" by simp
  next
    assume "\<exists>k. inp (reads s + 2 + k)"
    then obtain k where "inp (reads s + 2 + k)" and "\<forall>j<k. \<not> inp (reads s + 2 + j)"
      by (rule first_release)
    with p0 p1 have "botao_pressionado_debounce inp s =
        Some (True, s\<lparr>clock_ms := clock_ms s + 50 + 10 * k, reads := reads s + 3 + k\<rparr>)"
      by (rule debounce_click)
    then show "\<exists>res. botao_pressionado_debounce inp s = Some res" by blast
  qed
next
  fix res assume "botao_pressionado_debounce inp s = Some res"
  with p0 p1 show "fst res"
    by (auto simp: debounce_confirmed split: option.splits)
next
  fix k assume "inp (reads s + 2 + k) \<and> (\<forall>j<k. \<not> inp (reads s + 2 + j))"
  then have "inp (reads s + 2 + k)" and "\<forall>j<k. \<not> inp (reads s + 2 + j)"
    by blast+
  with p0 p1 have "botao_pressionado_debounce inp s =
      Some (True, s\<lparr>clock_ms := clock_ms s + 50 + 10 * k, reads := reads s + 3 + k\<rparr>)"
    by (rule debounce_click)
  then show "\<exists>s'. botao_pressionado_debounce inp s = Some (True, s') \<and>
      reads s' = reads s + 3 + k \<and> clock_ms s' = clock_ms s + 50 + 10 * k"
    by simp
next
  fix n
  define late :: input where "late = (\<lambda>i. reads s + 2 + n \<le> i)"
  have "\<not> late (reads s)" "\<not> late (Suc (reads s))" "late (reads s + 2 + n)"
    "\<forall>j<n. \<not> late (reads s + 2 + j)"
    by (simp_all add: late_def)
  then have "\<not> late (reads s) \<and> \<not> late (Suc (reads s)) \<and>
      botao_pressionado_debounce late s =
        Some (True, s\<lparr>clock_ms := clock_ms s + 50 + 10 * n, reads := reads s + 3 + n\<rparr>)"
    by (simp add: debounce_click)
  moreover have "clock_ms s + n \<le> clock_ms (s\<lparr>clock_ms := clock_ms s + 50 + 10 * n, reads := reads s + 3 + n\<rparr>)"
    by simp
  ultimately show "\<exists>inp' s'. \<not> inp' (reads s) \<and> \<not> inp' (Suc (reads s)) \<and>
      botao_pressionado_debounce inp' s = Some (True, s') \<and> clock_ms s + n \<le> clock_ms s'"
    by blast
qed

text \<open>
  The 60 ms press returns true after 60 ms and four reads; the button that is never
  released makes the function block for ever.
\<close>

theorem debounce_blocks_until_release_witness:
  "\<not> press_60ms (reads (main_init power_on)) \<and> \<not> press_60ms (Suc (reads (main_init power_on))) \<and>
   press_60ms (reads (main_init power_on) + 2 + 1) \<and>
   map_option (\<lambda>(b, t). (b, clock_ms t, reads t))
      (botao_pressionado_debounce press_60ms (main_init power_on)) = Some (True, 60, 4) \<and>
   \<not> held_forever (reads (main_init power_on)) \<and> \<not> held_forever (Suc (reads (main_init power_on))) \<and>
   botao_pressionado_debounce held_forever (main_init power_on) = None"
proof -
  let ?s = "main_init power_on"
  have z: "reads ?s = 0" "clock_ms ?s = 0"
    by (simp_all add: main_init_def power_on_def gpio_put_def)
  have p: "\<not> press_60ms (reads ?s)" "\<not> press_60ms (Suc (reads ?s))"
    by (simp_all add: press_60ms_def z)
  have h: "\<not> held_forever (reads ?s)" "\<not> held_forever (Suc (reads ?s))"
    by (simp_all add: held_forever_def)
  from debounce_blocks_until_release [OF p]
  have "\<forall>k. press_60ms (reads ?s + 2 + k) \<and> (\<forall>j<k. \<not> press_60ms (reads ?s + 2 + j)) \<longrightarrow>
      (\<exists>s'. botao_pressionado_debounce press_60ms ?s = Some (True, s') \<and>
            reads s' = reads ?s + 3 + k \<and> clock_ms s' = clock_ms ?s + 50 + 10 * k)"
    by blast
  then have "press_60ms (reads ?s + 2 + 1) \<and> (\<forall>j<1. \<not> press_60ms (reads ?s + 2 + j)) \<longrightarrow>
      (\<exists>s'. botao_pressionado_debounce press_60ms ?s = Some (True, s') \<and>
            reads s' = reads ?s + 3 + 1 \<and> clock_ms s' = clock_ms ?s + 50 + 10 * 1)"
    by (rule spec)
  then have a: "map_option (\<lambda>(b, t). (b, clock_ms t, reads t))
      (botao_pressionado_debounce press_60ms ?s) = Some (True, 60, 4)"
    by (auto simp: press_60ms_def z)
  from debounce_blocks_until_release [OF h]
  have "(\<exists>res. botao_pressionado_debounce held_forever ?s = Some res) \<longleftrightarrow>
      (\<exists>k. held_forever (reads ?s + 2 + k))"
    by blast
  then have b: "botao_pressionado_debounce held_forever ?s = None"
    by (cases "botao_pressionado_debounce held_forever ?s") (simp_all add: held_forever_def)
  show ?thesis
    using p h a b by (simp add: press_60ms_def z)
qed

section \<open>Transitions of the sequencer\<close>

lemma main_iter_step:
  assumes inv: "sequencer_inv s" and ret: "main_iter inp s = Some s'"
  shows "(step s' = step s \<and> alarms s' = alarms s) \<or>
         (step s = 0 \<and> step s' = 1 \<and> alarms s' = alarms s @ [3000] \<and>
          \<not> sequence_active s \<and> (\<exists>sd. botao_pressionado_debounce inp s = Some (True, sd)))"
proof (cases "sequence_active s")
  case True
  with ret show ?thesis by (auto simp: main_iter_active)
next
  case False
  from False ret show ?thesis
  proof (cases rule: main_iter_idle_cases)
    case (click sd)
    from debounce_frame [OF click(1)] obtain r c
      where "sd = s\<lparr>clock_ms := c, reads := r\<rparr>" by blast
    with click False inv show ?thesis
      by (simp add: sequencer_inv_def hw_defs)
  next
    case (quiet sd)
    from debounce_frame [OF quiet(1)] obtain r c
      where "sd = s\<lparr>clock_ms := c, reads := r\<rparr>" by blast
    with quiet show ?thesis
      by (simp add: hw_defs)
  qed
qed

lemma fire_step:
  assumes inv: "sequencer_inv s" and pending: "i < length (alarms s)"
  shows "(step s = 1 \<and> step (fire i s) = 2) \<or> (step s = 2 \<and> step (fire i s) = 3) \<or>
         (step s = 3 \<and> step (fire i s) = 0)"
proof -
  from inv pending have al: "alarms s = [3000]"
    and st: "step s = 1 \<or> step s = 2 \<or> step s = 3"
    by (auto simp: sequencer_inv_def split: if_splits)
  from al pending have "fire i s = snd (alarm_callback (s\<lparr>alarms := []\<rparr>))"
    by (rule fire_only_pending)
  with st show ?thesis
    by (auto simp: alarm_callback_def hw_defs)
qed

lemma alarm_callback_alarms:
  "alarms (snd (alarm_callback s)) = alarms s @ (if step s = 1 \<or> step s = 2 then [3000] else [])"
  by (simp add: alarm_callback_def hw_defs)

lemma finished_step: "step (fire 0 (fire 0 (fire 0 started))) = 0"
  by (simp add: fire_def alarm_callback_def started_eq hw_defs)

text \<open>
  C6. From a reachable state, a pass of the main loop either leaves \<open>step\<close> as it is or
  takes it from 0 to 1, and the latter only from an idle state on a validated click;
  the delivery of a pending alarm takes \<open>step\<close> from 1 to 2, from 2 to 3 or from 3 to 0.
  No other change of \<open>step\<close> happens.
\<close>

theorem steps_strictly_sequential:
  assumes "reachable inp s"
  shows "(\<forall>s'. main_iter inp s = Some s' \<longrightarrow>
            step s' = step s \<or>
            (step s = 0 \<and> step s' = 1 \<and> \<not> sequence_active s \<and>
             (\<exists>sd. botao_pressionado_debounce inp s = Some (True, sd)))) \<and>
         (\<forall>i<length (alarms s).
            (step s = 1 \<and> step (fire i s) = 2) \<or> (step s = 2 \<and> step (fire i s) = 3) \<or>
            (step s = 3 \<and> step (fire i s) = 0))"
proof -
  from assms have inv: "sequencer_inv s" by (rule reachable_inv)
  show ?thesis
  proof (intro conjI allI impI)
    fix s' assume "main_iter inp s = Some s'"
    from main_iter_step [OF inv this]
    show "step s' = step s \<or>
        (step s = 0 \<and> step s' = 1 \<and> \<not> sequence_active s \<and>
         (\<exists>sd. botao_pressionado_debounce inp s = Some (True, sd)))"
      by blast
  next
    fix i assume "i < length (alarms s)"
    with inv show "(step s = 1 \<and> step (fire i s) = 2) \<or> (step s = 2 \<and> step (fire i s) = 3) \<or>
        (step s = 3 \<and> step (fire i s) = 0)"
      by (rule fire_step)
  qed
qed

text \<open>
  In the test scenario the first pass takes \<open>step\<close> from 0 to 1 and the first alarm
  from 1 to 2.
\<close>

theorem steps_strictly_sequential_witness:
  "reachable press_60ms (main_init power_on) \<and>
   main_iter press_60ms (main_init power_on) = Some started \<and>
   step (main_init power_on) = 0 \<and> step started = 1 \<and>
   reachable press_60ms started \<and> 0 < length (alarms started) \<and>
   step (fire 0 started) = 2"
proof -
  have r0: "reachable press_60ms (main_init power_on)" by (rule reach_init)
  have run: "main_iter press_60ms (main_init power_on) = Some started"
    by (simp add: started_eq main_iter_press_60ms)
  have pend: "0 < length (alarms started)" by (simp add: started_fields)
  from steps_strictly_sequential [OF r0] run
  have "step started = step (main_init power_on) \<or>
      (step (main_init power_on) = 0 \<and> step started = 1)"
    by blast
  then have a: "step (main_init power_on) = 0 \<and> step started = 1"
    by (simp add: started_fields main_init_def power_on_def gpio_put_def)
  from steps_strictly_sequential [OF reachable_started] pend
  have "(step started = 1 \<and> step (fire 0 started) = 2) \<or>
      (step started = 2 \<and> step (fire 0 started) = 3) \<or>
      (step started = 3 \<and> step (fire 0 started) = 0)"
    by blast
  then have b: "step (fire 0 started) = 2"
    by (simp add: started_fields)
  show ?thesis
    using r0 run a reachable_started pend b by simp
qed

text \<open>
  C8. In a reachable state one alarm is pending when \<open>sequence_active\<close> is true and none
  when it is false. A pass of the main loop arms an alarm exactly when it takes \<open>step\<close>
  from 0 to 1; the callback arms one exactly when it runs with \<open>step\<close> 1 or 2, so none
  on the way from 3 to 0.
\<close>

theorem one_alarm_pending_while_active:
  assumes "reachable inp s"
  shows "length (alarms s) = (if sequence_active s then 1 else 0) \<and>
         (\<forall>s'. main_iter inp s = Some s' \<longrightarrow>
            alarms s' = alarms s @ (if step s = 0 \<and> step s' = 1 then [3000] else [])) \<and>
         alarms (snd (alarm_callback s)) =
            alarms s @ (if step s = 1 \<or> step s = 2 then [3000] else [])"
proof -
  from assms have inv: "sequencer_inv s" by (rule reachable_inv)
  show ?thesis
  proof (intro conjI allI impI)
    from inv show "length (alarms s) = (if sequence_active s then 1 else 0)"
      by (simp add: sequencer_inv_def split: if_splits)
  next
    fix s' assume "main_iter inp s = Some s'"
    from main_iter_step [OF inv this]
    show "alarms s' = alarms s @ (if step s = 0 \<and> step s' = 1 then [3000] else [])"
      by auto
  next
    show "alarms (snd (alarm_callback s)) =
        alarms s @ (if step s = 1 \<or> step s = 2 then [3000] else [])"
      by (rule alarm_callback_alarms)
  qed
qed

text \<open>
  The state after initialisation has no alarm pending; the pass that starts the sequence
  arms one; the callback run from \<open>started\<close> arms the next.
\<close>

theorem one_alarm_pending_while_active_witness:
  "reachable press_60ms (main_init power_on) \<and> \<not> sequence_active (main_init power_on) \<and>
   length (alarms (main_init power_on)) = 0 \<and>
   main_iter press_60ms (main_init power_on) = Some started \<and>
   alarms started = alarms (main_init power_on) @ [3000] \<and>
   reachable press_60ms started \<and> sequence_active started \<and> length (alarms started) = 1 \<and>
   alarms (snd (alarm_callback started)) = alarms started @ [3000]"
proof -
  have r0: "reachable press_60ms (main_init power_on)" by (rule reach_init)
  have idle: "\<not> sequence_active (main_init power_on)" "step (main_init power_on) = 0"
    by (simp_all add: main_init_def power_on_def gpio_put_def)
  have run: "main_iter press_60ms (main_init power_on) = Some started"
    by (simp add: started_eq main_iter_press_60ms)
  from one_alarm_pending_while_active [OF r0] idle run
  have a: "length (alarms (main_init power_on)) = 0"
    "alarms started = alarms (main_init power_on) @ [3000]"
    by (simp_all add: started_fields)
  from one_alarm_pending_while_active [OF reachable_started]
  have b: "length (alarms started) = 1"
    "alarms (snd (alarm_callback started)) = alarms started @ [3000]"
    by (simp_all add: started_fields)
  show ?thesis
    using r0 idle(1) a run reachable_started b by (simp add: started_fields)
qed

section \<open>The callback while stopped\<close>

text \<open>
  C4, as the specification states it: a call of the callback with \<open>step = 0\<close> is a
  fatal fault and not a silent no-op. The switch in \<open>alarm_callback\<close> has no default
  case and the program has no assertion or abort: called in the state after
  initialisation, where \<open>step\<close> is 0, the callback returns 0 and the state is what it
  was.
\<close>

theorem callback_at_step_0_counterexample:
  "step (main_init power_on) = 0 \<and>
   alarm_callback (main_init power_on) = (0, main_init power_on)"
  by (simp add: alarm_callback_def main_init_def power_on_def gpio_put_def)

text \<open>
  C4, amended: a call of the callback with \<open>step = 0\<close> returns 0 and leaves the whole
  state (\<open>sequence_active\<close>, \<open>step\<close>, the outputs and the pending alarms) unchanged.
\<close>

theorem callback_at_step_0_is_noop:
  "step s = 0 \<Longrightarrow> alarm_callback s = (0, s)"
  by (simp add: alarm_callback_def)

text \<open>
  The state at the end of the sequence of the test scenario, where \<open>step\<close> is 0 again.
\<close>

theorem callback_at_step_0_is_noop_witness:
  "step (fire 0 (fire 0 (fire 0 started))) = 0 \<and>
   alarm_callback (fire 0 (fire 0 (fire 0 started))) = (0, fire 0 (fire 0 (fire 0 started)))"
proof -
  have z: "step (fire 0 (fire 0 (fire 0 started))) = 0"
    by (rule finished_step)
  with callback_at_step_0_is_noop [OF z] show ?thesis by simp
qed

end
